theory Spec2Isabelle
  imports Main "HOL-Library.Word" "HOL-Library.Signed_Division" "HOL-Library.Multiset"
begin

section \<open>Game configuration\<close>

text \<open>
  The sketch \<^verbatim>\<open>whackamole.ino\<close> keeps all of its state in global variables and reads the
  outside world through \<^verbatim>\<open>millis()\<close>, \<^verbatim>\<open>random()\<close> and \<^verbatim>\<open>digitalRead()\<close>. The embedding
  passes the globals as a record and the readings of the outside world as a second record.
  Fixed-width C integers are words; array accesses outside the declared bounds are
  undefined behaviour in C and are a fault value here.
\<close>

definition delay_time :: "32 word" where
  "delay_time = 1000"

definition mole_pop_prob :: "8 word" where
  "mole_pop_prob = 80"

definition mole_expire_delay :: "32 word" where
  "mole_expire_delay = 500"

record mole_config =
  button :: nat
  led :: nat

definition moles :: "mole_config list" where
  "moles = [\<lparr>button = 2, led = 3\<rparr>, \<lparr>button = 6, led = 5\<rparr>,
            \<lparr>button = 9, led = 10\<rparr>, \<lparr>button = 12, led = 13\<rparr>]"

definition num_moles :: nat where
  "num_moles = length moles"

section \<open>Program state and events\<close>

datatype program_state = state_stopped | state_running | state_won | state_lost

datatype event_type = event_mole_can_pop | event_mole_expired

record event =
  event_millis :: "32 word"
  etype :: event_type
  event_mole_number :: "16 word"

definition MAX_HEAP_SIZE :: "8 word" where
  "MAX_HEAP_SIZE = 20"

text \<open>
  The globals. \<open>mole_state\<close> holds the \<^verbatim>\<open>mole_number\<close> of each slot, \<open>pins_high\<close> the
  output pins whose last \<^verbatim>\<open>digitalWrite\<close> was HIGH.
\<close>

record game =
  mole_state :: "16 word list"
  next_mole_number :: "16 word"
  state :: program_state
  event_heap :: "event list"
  event_heap_size :: "8 word"
  pins_high :: "nat set"

text \<open>
  What one handler invocation reads from the board: the button pins, the millisecond clock
  and the two draws of the random number generator made by \<^verbatim>\<open>handleMoleCanPop\<close>. The
  clock and the pins are sampled once per handler invocation.
\<close>

record board =
  digitalRead :: "nat \<Rightarrow> bool"
  millis :: "32 word"
  random_100 :: int
  random_num_moles :: int

datatype fault = OutOfBounds int

text \<open>C static initialisation: every global not given an initialiser is zero.\<close>

definition zero_event :: event where
  "zero_event = \<lparr>event_millis = 0, etype = event_mole_can_pop, event_mole_number = 0\<rparr>"

definition initial_game :: game where
  "initial_game = \<lparr>mole_state = [0, 0, 0, 0], next_mole_number = 1, state = state_stopped,
     event_heap = replicate 20 zero_event, event_heap_size = 0, pins_high = {}\<rparr>"

section \<open>Event constructors\<close>

definition makeMoleCanPopEvent :: "board \<Rightarrow> event" where
  "makeMoleCanPopEvent b =
     \<lparr>event_millis = millis b + delay_time, etype = event_mole_can_pop, event_mole_number = 0\<rparr>"

definition makeMoleExpiresEvent :: "board \<Rightarrow> game \<Rightarrow> event" where
  "makeMoleExpiresEvent b g =
     \<lparr>event_millis = millis b + mole_expire_delay, etype = event_mole_expired,
      event_mole_number = next_mole_number g\<rparr>"

section \<open>Heap operations on the event queue\<close>

text \<open>
  An access \<^verbatim>\<open>event_heap[k]\<close>. The index expression is an \<^verbatim>\<open>int\<close> after integer promotion;
  the array has \<open>MAX_HEAP_SIZE\<close> elements.
\<close>

definition heap_get :: "event list \<Rightarrow> int \<Rightarrow> fault + event" where
  "heap_get h k =
     (if 0 \<le> k \<and> k < uint MAX_HEAP_SIZE \<and> nat k < length h then Inr (h ! nat k)
      else Inl (OutOfBounds k))"

definition heap_set :: "event list \<Rightarrow> int \<Rightarrow> event \<Rightarrow> fault + event list" where
  "heap_set h k ev =
     (if 0 \<le> k \<and> k < uint MAX_HEAP_SIZE \<and> nat k < length h then Inr (h[nat k := ev])
      else Inl (OutOfBounds k))"

text \<open>
  \<^verbatim>\<open>(i - 1) / 2\<close> is computed on \<^verbatim>\<open>int\<close> with C's truncating division and converted back to
  \<^verbatim>\<open>uint8_t\<close>.
\<close>

definition heap_parent :: "8 word \<Rightarrow> 8 word" where
  "heap_parent i = word_of_int ((uint i - 1) sdiv 2)"

definition heap_left :: "8 word \<Rightarrow> 8 word" where
  "heap_left i = 2 * i + 1"

definition heap_right :: "8 word \<Rightarrow> 8 word" where
  "heap_right i = 2 * i + 2"

definition heap_clear :: "game \<Rightarrow> game" where
  "heap_clear g = g\<lparr>event_heap_size := 0\<rparr>"

text \<open>
  The \<^verbatim>\<open>while\<close> loop of \<^verbatim>\<open>heap_insert\<close>. \<open>parent\<close> is computed once before the loop and is
  not updated in its body, so the loop need not terminate: \<open>None\<close> is "does not return".
\<close>

partial_function (option) heap_insert_loop ::
  "event \<Rightarrow> 8 word \<Rightarrow> event list \<Rightarrow> 8 word \<Rightarrow> (fault + event list \<times> 8 word) option" where
  "heap_insert_loop ev parent h i =
     (if 0 < i then
        (case heap_get h (uint parent) of
           Inl f \<Rightarrow> Some (Inl f)
         | Inr p \<Rightarrow>
             if event_millis ev < event_millis p then
               (case heap_set h (uint i) p of
                  Inl f \<Rightarrow> Some (Inl f)
                | Inr h' \<Rightarrow> heap_insert_loop ev parent h' parent)
             else Some (Inr (h, i)))
      else Some (Inr (h, i)))"

declare heap_insert_loop.simps [code]

definition heap_insert :: "event \<Rightarrow> game \<Rightarrow> (fault + game) option" where
  "heap_insert ev g =
     (let n = event_heap_size g + 1;
          i = n;
          parent = heap_parent i
      in case heap_insert_loop ev parent (event_heap g) i of
           None \<Rightarrow> None
         | Some (Inl f) \<Rightarrow> Some (Inl f)
         | Some (Inr (h, j)) \<Rightarrow>
             (case heap_set h (uint j) ev of
                Inl f \<Rightarrow> Some (Inl f)
              | Inr h' \<Rightarrow> Some (Inr (g\<lparr>event_heap := h', event_heap_size := n\<rparr>))))"

text \<open>
  \<^verbatim>\<open>event_heap[a].event_millis < event_heap[b].event_millis\<close>: both elements are read.
\<close>

definition millis_less :: "event list \<Rightarrow> int \<Rightarrow> int \<Rightarrow> fault + bool" where
  "millis_less h a b =
     (case heap_get h a of
        Inl f \<Rightarrow> Inl f
      | Inr x \<Rightarrow>
          (case heap_get h b of
             Inl f \<Rightarrow> Inl f
           | Inr y \<Rightarrow> Inr (event_millis x < event_millis y)))"

text \<open>
  \<^verbatim>\<open>tmp = event_heap[a]; event_heap[a] = event_heap[b]; event_heap[b] = tmp;\<close>
\<close>

definition heap_swap :: "event list \<Rightarrow> int \<Rightarrow> int \<Rightarrow> fault + event list" where
  "heap_swap h a b =
     (case heap_get h a of
        Inl f \<Rightarrow> Inl f
      | Inr tmp \<Rightarrow>
          (case heap_get h b of
             Inl f \<Rightarrow> Inl f
           | Inr y \<Rightarrow>
               (case heap_set h a y of
                  Inl f \<Rightarrow> Inl f
                | Inr h1 \<Rightarrow> heap_set h1 b tmp)))"

function heapify :: "8 word \<Rightarrow> game \<Rightarrow> fault + game" where
  "heapify i g =
     (let l = heap_left i;
          r = heap_right i;
          h = event_heap g;
          sz = event_heap_size g
      in case (if l < sz then
                 (case millis_less h (uint l) (uint i) of
                    Inl f \<Rightarrow> Inl f
                  | Inr c \<Rightarrow> Inr (if c then l else i))
               else Inr i) of
           Inl f \<Rightarrow> Inl f
         | Inr largest0 \<Rightarrow>
             (case (if r < sz then
                      (case millis_less h (uint r) (uint largest0) of
                         Inl f \<Rightarrow> Inl f
                       | Inr c \<Rightarrow> Inr (if c then r else largest0))
                    else Inr largest0) of
                Inl f \<Rightarrow> Inl f
              | Inr largest \<Rightarrow>
                  if largest \<noteq> i then
                    (case heap_swap h (uint largest) (uint i) of
                       Inl f \<Rightarrow> Inl f
                     | Inr h' \<Rightarrow> heapify largest (g\<lparr>event_heap := h'\<rparr>))
                  else Inr g))"
  by pat_completeness auto

termination
proof (relation "measure (\<lambda>(i, g). 20 - unat i)", goal_cases)
  case 1
  show ?case by simp
next
  case (2 i g l r h sz largest0 largest h')
  from 2(8) have "uint i < 20" "uint largest < 20"
    by (auto simp: heap_swap_def heap_get_def MAX_HEAP_SIZE_def split: if_splits sum.splits)
  then have b: "unat i < 20" "unat largest < 20"
    by (transfer, simp)+
  from b(1) have "unat (heap_left i) = 2 * unat i + 1"
    unfolding heap_left_def by (simp add: unat_word_ariths)
  moreover from b(1) have "unat (heap_right i) = 2 * unat i + 2"
    unfolding heap_right_def by (simp add: unat_word_ariths)
  moreover from 2(5,6,7) have "largest = l \<or> largest = r"
    by (auto split: if_splits sum.splits)
  ultimately have "unat i < unat largest"
    using 2(1,2) by auto
  with b show ?case by simp
qed

declare heapify.simps [simp del]

text \<open>
  \<^verbatim>\<open>heap_extract_min\<close> does not test for an empty heap: with \<open>event_heap_size = 0\<close> the
  index \<^verbatim>\<open>event_heap_size - 1\<close> is the \<^verbatim>\<open>int\<close> \<open>-1\<close>.
\<close>

definition heap_extract_min :: "game \<Rightarrow> fault + event \<times> game" where
  "heap_extract_min g =
     (case heap_get (event_heap g) 0 of
        Inl f \<Rightarrow> Inl f
      | Inr imin \<Rightarrow>
          (case heap_get (event_heap g) (uint (event_heap_size g) - 1) of
             Inl f \<Rightarrow> Inl f
           | Inr lst \<Rightarrow>
               (case heap_set (event_heap g) 0 lst of
                  Inl f \<Rightarrow> Inl f
                | Inr h' \<Rightarrow>
                    (case heapify 0 (g\<lparr>event_heap := h',
                                        event_heap_size := event_heap_size g - 1\<rparr>) of
                       Inl f \<Rightarrow> Inl f
                     | Inr g' \<Rightarrow> Inr (imin, g')))))"

section \<open>The game\<close>

text \<open>Sequencing of two steps that may fault or fail to return.\<close>

definition and_then ::
  "(fault + 'a) option \<Rightarrow> ('a \<Rightarrow> (fault + 'b) option) \<Rightarrow> (fault + 'b) option" where
  "and_then m k = (case m of None \<Rightarrow> None | Some (Inl f) \<Rightarrow> Some (Inl f) | Some (Inr x) \<Rightarrow> k x)"

definition digitalWrite :: "nat \<Rightarrow> bool \<Rightarrow> game \<Rightarrow> game" where
  "digitalWrite pin v g =
     g\<lparr>pins_high := (if v then insert pin (pins_high g) else pins_high g - {pin})\<rparr>"

text \<open>One iteration of the loop in \<^verbatim>\<open>startANewGame\<close> that clears the moles.\<close>

definition clear_mole :: "nat \<Rightarrow> game \<Rightarrow> game" where
  "clear_mole i g = digitalWrite (led (moles ! i)) False (g\<lparr>mole_state := (mole_state g)[i := 0]\<rparr>)"

definition startANewGame :: "board \<Rightarrow> game \<Rightarrow> (fault + game) option" where
  "startANewGame b g =
     and_then (heap_insert (makeMoleCanPopEvent b) (heap_clear g))
       (\<lambda>g1. Some (Inr ((fold clear_mole [0..<num_moles] g1)\<lparr>state := state_running\<rparr>)))"

fun anyButtonPressed_from :: "board \<Rightarrow> mole_config list \<Rightarrow> bool" where
  "anyButtonPressed_from b [] = False"
| "anyButtonPressed_from b (m # ms) =
     (if digitalRead b (button m) then True else anyButtonPressed_from b ms)"

definition anyButtonPressed :: "board \<Rightarrow> bool" where
  "anyButtonPressed b = anyButtonPressed_from b moles"

definition maybeStartANewGame :: "board \<Rightarrow> game \<Rightarrow> (fault + game) option" where
  "maybeStartANewGame b g = (if anyButtonPressed b then startANewGame b g else Some (Inr g))"

text \<open>
  \<^verbatim>\<open>handleMoleCanPop\<close> returns before any insertion when the roll is at least
  \<open>mole_pop_prob\<close>. \<^verbatim>\<open>random(num_moles)\<close> is an index into \<open>mole_state\<close> and \<open>moles\<close>.
\<close>

definition handleMoleCanPop :: "board \<Rightarrow> game \<Rightarrow> (fault + game) option" where
  "handleMoleCanPop b g =
     (if random_100 b \<ge> uint mole_pop_prob then Some (Inr g)
      else
        (let mole = random_num_moles b in
         if \<not> (0 \<le> mole \<and> mole < int num_moles \<and> nat mole < length (mole_state g))
         then Some (Inl (OutOfBounds mole))
         else
           (let g1 = digitalWrite (led (moles ! nat mole)) True
                       (g\<lparr>mole_state := (mole_state g)[nat mole := next_mole_number g]\<rparr>)
            in and_then (heap_insert (makeMoleExpiresEvent b g1) g1)
                 (\<lambda>g2. and_then (heap_insert (makeMoleCanPopEvent b) g2)
                    (\<lambda>g3. Some (Inr (g3\<lparr>next_mole_number := next_mole_number g3 + 1\<rparr>)))))))"

definition handleMoleExpired :: "game \<Rightarrow> game" where
  "handleMoleExpired g = g\<lparr>state := state_lost\<rparr>"

definition program_stopped :: "board \<Rightarrow> game \<Rightarrow> (fault + game) option" where
  "program_stopped b g =
     maybeStartANewGame b (fold (\<lambda>i. digitalWrite (led (moles ! i)) True) [0..<num_moles] g)"

text \<open>One iteration of the button scan at the start of \<^verbatim>\<open>program_running\<close>.\<close>

definition whack_mole :: "board \<Rightarrow> nat \<Rightarrow> game \<Rightarrow> game" where
  "whack_mole b i g =
     (if digitalRead b (button (moles ! i)) then
        (if mole_state g ! i \<noteq> 0 then
           digitalWrite (led (moles ! i)) False (g\<lparr>mole_state := (mole_state g)[i := 0]\<rparr>)
         else g)
      else g)"

definition scan_buttons :: "board \<Rightarrow> game \<Rightarrow> game" where
  "scan_buttons b g = fold (whack_mole b) [0..<num_moles] g"

text \<open>
  The \<^verbatim>\<open>switch\<close> on the event type: \<^verbatim>\<open>event_mole_expired\<close> falls through into the
  \<^verbatim>\<open>default\<close> label, which only breaks.
\<close>

definition dispatch_event :: "board \<Rightarrow> event \<Rightarrow> game \<Rightarrow> (fault + game) option" where
  "dispatch_event b ev g =
     (case etype ev of
        event_mole_can_pop \<Rightarrow> handleMoleCanPop b g
      | event_mole_expired \<Rightarrow> Some (Inr (handleMoleExpired g)))"

text \<open>
  \<^verbatim>\<open>program_running\<close>: the button scan, then a single \<^verbatim>\<open>if\<close> that compares the clock with
  \<^verbatim>\<open>event_heap->event_millis\<close>, the first element of the array, whatever the heap size.
\<close>

definition program_running :: "board \<Rightarrow> game \<Rightarrow> (fault + game) option" where
  "program_running b g =
     (let g1 = scan_buttons b g;
          curr_ms = millis b
      in case heap_get (event_heap g1) 0 of
           Inl f \<Rightarrow> Some (Inl f)
         | Inr root \<Rightarrow>
             if curr_ms > event_millis root then
               (case heap_extract_min g1 of
                  Inl f \<Rightarrow> Some (Inl f)
                | Inr (ev, g2) \<Rightarrow> dispatch_event b ev g2)
             else Some (Inr g1))"

definition program_won :: "board \<Rightarrow> game \<Rightarrow> (fault + game) option" where
  "program_won b g = maybeStartANewGame b g"

definition program_lost :: "board \<Rightarrow> game \<Rightarrow> (fault + game) option" where
  "program_lost b g = maybeStartANewGame b g"

text \<open>
  A C \<^verbatim>\<open>switch\<close> whose cases do not end in \<^verbatim>\<open>break\<close>: control enters at the first label
  equal to the scrutinee and runs every later case body in order. With no matching label
  control goes to \<^verbatim>\<open>default\<close>, which here only breaks.
\<close>

fun run_bodies :: "('s \<Rightarrow> (fault + 's) option) list \<Rightarrow> 's \<Rightarrow> (fault + 's) option" where
  "run_bodies [] g = Some (Inr g)"
| "run_bodies (f # fs) g = and_then (f g) (run_bodies fs)"

definition switch_fallthrough ::
  "'l \<Rightarrow> ('l \<times> ('s \<Rightarrow> (fault + 's) option)) list \<Rightarrow> 's \<Rightarrow> (fault + 's) option" where
  "switch_fallthrough v cases g = run_bodies (map snd (dropWhile (\<lambda>c. fst c \<noteq> v) cases)) g"

text \<open>
  \<^verbatim>\<open>loop()\<close>. \<open>bd\<close> gives the board readings seen by the handler under each case label.
\<close>

definition loop :: "(program_state \<Rightarrow> board) \<Rightarrow> game \<Rightarrow> (fault + game) option" where
  "loop bd g =
     switch_fallthrough (state g)
       [(state_stopped, program_stopped (bd state_stopped)),
        (state_running, program_running (bd state_running)),
        (state_won, program_won (bd state_won)),
        (state_lost, program_lost (bd state_lost))] g"

section \<open>Observations and scenarios\<close>

text \<open>The occupied slots of the queue: the first \<open>event_heap_size\<close> elements of the array.\<close>

definition heap_contents :: "game \<Rightarrow> event list" where
  "heap_contents g = take (unat (event_heap_size g)) (event_heap g)"

text \<open>
  The min-heap property over the occupied slots: every occupied slot other than the root
  fires no earlier than its parent slot.
\<close>

definition heap_ordered :: "game \<Rightarrow> bool" where
  "heap_ordered g =
     list_all (\<lambda>i. event_millis (event_heap g ! ((i - 1) div 2)) \<le> event_millis (event_heap g ! i))
       [1..<unat (event_heap_size g)]"

text \<open>The occupancy/LED coupling: a slot holds a mole number exactly when its LED is on.\<close>

definition coupled :: "game \<Rightarrow> bool" where
  "coupled g =
     list_all (\<lambda>i. (mole_state g ! i \<noteq> 0) = (led (moles ! i) \<in> pins_high g)) [0..<num_moles]"

text \<open>The arrays have the sizes the sketch declares.\<close>

definition well_sized :: "game \<Rightarrow> bool" where
  "well_sized g = (length (event_heap g) = unat MAX_HEAP_SIZE \<and> length (mole_state g) = num_moles)"

text \<open>What an observation \<open>f\<close> shows of a step's result, when the step returns a state.\<close>

definition on_return :: "('a \<Rightarrow> 'b) \<Rightarrow> (fault + 'a) option \<Rightarrow> (fault + 'b) option" where
  "on_return f r = (case r of None \<Rightarrow> None | Some (Inl e) \<Rightarrow> Some (Inl e) | Some (Inr x) \<Rightarrow> Some (Inr (f x)))"

text \<open>Inserting a list of events one after the other, and extracting \<open>n\<close> times.\<close>

fun insert_all :: "event list \<Rightarrow> game \<Rightarrow> (fault + game) option" where
  "insert_all [] g = Some (Inr g)"
| "insert_all (e # es) g = and_then (heap_insert e g) (insert_all es)"

fun extract_times :: "nat \<Rightarrow> game \<Rightarrow> fault + event list" where
  "extract_times 0 g = Inr []"
| "extract_times (Suc n) g =
     (case heap_extract_min g of
        Inl f \<Rightarrow> Inl f
      | Inr (e, g') \<Rightarrow> (case extract_times n g' of Inl f \<Rightarrow> Inl f | Inr es \<Rightarrow> Inr (e # es)))"

text \<open>Successive \<^verbatim>\<open>loop()\<close> calls, one board reading per call.\<close>

fun run_loops :: "(program_state \<Rightarrow> board) list \<Rightarrow> game \<Rightarrow> (fault + game) option" where
  "run_loops [] g = Some (Inr g)"
| "run_loops (bd # bds) g = and_then (loop bd g) (run_loops bds)"

text \<open>A board on which exactly the pins in \<open>pressed\<close> read HIGH.\<close>

definition board_with :: "nat list \<Rightarrow> 32 word \<Rightarrow> int \<Rightarrow> int \<Rightarrow> board" where
  "board_with pressed t roll mole =
     \<lparr>digitalRead = (\<lambda>p. p \<in> set pressed), millis = t, random_100 = roll, random_num_moles = mole\<rparr>"

definition pop_at :: "32 word \<Rightarrow> event" where
  "pop_at t = \<lparr>event_millis = t, etype = event_mole_can_pop, event_mole_number = 0\<rparr>"

definition expiry_at :: "32 word \<Rightarrow> 16 word \<Rightarrow> event" where
  "expiry_at t n = \<lparr>event_millis = t, etype = event_mole_expired, event_mole_number = n\<rparr>"

text \<open>A running game whose queue holds the events \<open>es\<close> in its first slots.\<close>

definition running_with :: "event list \<Rightarrow> game" where
  "running_with es =
     initial_game\<lparr>state := state_running,
       event_heap := es @ replicate (20 - length es) zero_event,
       event_heap_size := of_nat (length es)\<rparr>"

text \<open>The game after the first \<^verbatim>\<open>loop()\<close> call from power-on with a button held.\<close>

definition first_game :: game where
  "first_game =
     initial_game\<lparr>state := state_running,
       event_heap := (event_heap initial_game)[1 := pop_at 1005],
       event_heap_size := 1\<rparr>"

section \<open>Array accesses within bounds\<close>

lemma word_less_20: "(k::8 word) < 20 \<Longrightarrow> unat k < 20 \<and> 0 \<le> uint k \<and> uint k < 20"
  by transfer simp

lemma heap_get_ok: "length h = 20 \<Longrightarrow> (k::8 word) < 20 \<Longrightarrow> heap_get h (uint k) = Inr (h ! unat k)"
  using word_less_20 [of k] by (simp add: heap_get_def MAX_HEAP_SIZE_def)

lemma heap_set_ok: "length h = 20 \<Longrightarrow> (k::8 word) < 20 \<Longrightarrow> heap_set h (uint k) e = Inr (h[unat k := e])"
  using word_less_20 [of k] by (simp add: heap_set_def MAX_HEAP_SIZE_def)

lemma millis_less_ok:
  "length h = 20 \<Longrightarrow> (a::8 word) < 20 \<Longrightarrow> (b::8 word) < 20 \<Longrightarrow>
   millis_less h (uint a) (uint b) = Inr (event_millis (h ! unat a) < event_millis (h ! unat b))"
  by (simp add: millis_less_def heap_get_ok)

lemma heap_swap_ok:
  "length h = 20 \<Longrightarrow> (a::8 word) < 20 \<Longrightarrow> (b::8 word) < 20 \<Longrightarrow>
   heap_swap h (uint a) (uint b) = Inr (h[unat a := h ! unat b, unat b := h ! unat a])"
  by (simp add: heap_swap_def heap_get_ok heap_set_ok)

lemma heap_left_unat: "unat i < 20 \<Longrightarrow> unat (heap_left i) = 2 * unat i + 1"
  unfolding heap_left_def by (simp add: unat_word_ariths)

lemma heap_right_unat: "unat i < 20 \<Longrightarrow> unat (heap_right i) = 2 * unat i + 2"
  unfolding heap_right_def by (simp add: unat_word_ariths)

lemma mset_take_swap:
  assumes "a < n" "b < n" "n \<le> length xs"
  shows "mset (take n (xs[a := xs ! b, b := xs ! a])) = mset (take n xs)"
proof -
  let ?ys = "take n xs"
  from assms have "take n (xs[a := xs ! b, b := xs ! a]) = ?ys[a := ?ys ! b, b := ?ys ! a]"
    by (simp add: take_update_swap)
  moreover from assms have "mset (?ys[a := ?ys ! b, b := ?ys ! a]) = mset ?ys"
    by (intro mset_swap) simp_all
  ultimately show ?thesis by simp
qed

text \<open>
  On an array of 20 elements with at most 20 of them occupied, \<open>heapify\<close> from an index
  inside the array reads and writes within bounds, changes nothing but the array, and
  permutes the occupied slots.
\<close>

lemma heapify_ok:
  "length (event_heap g) = 20 \<Longrightarrow> event_heap_size g \<le> 20 \<Longrightarrow> i < 20 \<Longrightarrow>
   \<exists>h'. heapify i g = Inr (g\<lparr>event_heap := h'\<rparr>) \<and> length h' = 20
        \<and> mset (take (unat (event_heap_size g)) h') = mset (take (unat (event_heap_size g)) (event_heap g))"
proof (induction i g rule: heapify.induct)
  case (1 i g)
  let ?h = "event_heap g" and ?sz = "event_heap_size g"
  let ?l = "heap_left i" and ?r = "heap_right i"
  define l0 where "l0 = (if ?l < ?sz \<and> event_millis (?h ! unat ?l) < event_millis (?h ! unat i) then ?l else i)"
  define lg where "lg = (if ?r < ?sz \<and> event_millis (?h ! unat ?r) < event_millis (?h ! unat l0) then ?r else l0)"
  have l0: "l0 < 20" using 1(3,4) by (auto simp: l0_def)
  have lg: "lg < 20" using 1(3,4) l0 by (auto simp: lg_def)
  have s1: "(if ?l < ?sz then (case millis_less ?h (uint ?l) (uint i) of Inl f \<Rightarrow> Inl f | Inr c \<Rightarrow> Inr (if c then ?l else i)) else Inr i) = Inr l0"
    using 1(2,3,4) by (auto simp: l0_def millis_less_ok)
  have s2: "(if ?r < ?sz then (case millis_less ?h (uint ?r) (uint l0) of Inl f \<Rightarrow> Inl f | Inr c \<Rightarrow> Inr (if c then ?r else l0)) else Inr l0) = Inr lg"
    using 1(2,3) l0 by (auto simp: lg_def millis_less_ok)
  show ?case
  proof (cases "lg = i")
    case True
    have "heapify i g = Inr g"
      using s1 s2 True by (subst heapify.simps) (simp add: Let_def)
    then show ?thesis
      using 1(2) by (intro exI [of _ "event_heap g"]) simp
  next
    case False
    let ?h' = "?h[unat lg := ?h ! unat i, unat i := ?h ! unat lg]"
    have sw: "heap_swap ?h (uint lg) (uint i) = Inr ?h'"
      using 1(2,4) lg by (simp add: heap_swap_ok)
    from False have "(lg = ?l \<and> ?l < ?sz) \<or> (lg = ?r \<and> ?r < ?sz)"
      by (auto simp: lg_def l0_def split: if_splits)
    moreover from 1(4) have "unat i < 20" using word_less_20 by blast
    ultimately have in_sz: "unat lg < unat ?sz" "unat i < unat ?sz"
      using heap_left_unat [of i] heap_right_unat [of i] by (auto simp: word_less_nat_alt)
    from 1(2,3) have "unat ?sz \<le> length ?h"
      by (simp add: word_le_nat_alt)
    with in_sz have perm: "mset (take (unat ?sz) ?h') = mset (take (unat ?sz) ?h)"
      by (intro mset_take_swap)
    have "\<exists>h''. heapify lg (g\<lparr>event_heap := ?h'\<rparr>) = Inr (g\<lparr>event_heap := ?h', event_heap := h''\<rparr>)
             \<and> length h'' = 20 \<and> mset (take (unat ?sz) h'') = mset (take (unat ?sz) ?h')"
      using 1(1) [OF refl refl refl refl s1 s2 False sw] 1(2,3) lg by simp
    then obtain h'' where h'': "heapify lg (g\<lparr>event_heap := ?h'\<rparr>) = Inr (g\<lparr>event_heap := h''\<rparr>)"
      "length h'' = 20" "mset (take (unat ?sz) h'') = mset (take (unat ?sz) ?h')"
      by auto
    have "heapify i g = Inr (g\<lparr>event_heap := h''\<rparr>)"
      using s1 s2 sw False h''(1) by (subst heapify.simps) (simp add: Let_def)
    with h''(2,3) perm show ?thesis by auto
  qed
qed

section \<open>Extraction and the button scan\<close>

lemma word_size_bounds:
  "0 < (sz::8 word) \<Longrightarrow> sz \<le> 20 \<Longrightarrow> 0 \<le> uint sz - 1 \<and> uint sz - 1 < 20 \<and> sz - 1 \<le> 20"
proof -
  assume a: "0 < sz" "sz \<le> 20"
  then have "sz \<noteq> 0" by auto
  then have "unat (sz - 1) = unat sz - 1" by (rule unat_minus_one)
  moreover from a have "0 < unat sz" "unat sz \<le> 20"
    by (simp_all add: word_less_nat_alt word_le_nat_alt)
  ultimately have "sz - 1 \<le> 20" by (simp add: word_le_nat_alt)
  moreover from a have "0 < uint sz" "uint sz \<le> 20"
    by (simp_all add: word_less_def word_le_def)
  ultimately show ?thesis by simp
qed

lemma mset_take_replace_root:
  assumes "1 \<le> n" "n \<le> length h"
  shows "mset (take (n - 1) (h[0 := h ! (n - 1)])) + {#h ! 0#} = mset (take n h)"
proof (cases "n = 1")
  case True
  with assms have "take n h = [h ! 0]"
    by (cases h) simp_all
  with True show ?thesis by simp
next
  case False
  with assms obtain k where k: "n = Suc (Suc k)"
    by (cases n) (auto simp: gr0_conv_Suc)
  with assms obtain x t where t: "take (Suc k) h = x # t"
    by (cases h) simp_all
  with assms k have x: "x = h ! 0"
    by (cases h) simp_all
  from assms k have "take n h = take (Suc k) h @ [h ! Suc k]"
    by (simp add: take_Suc_conv_app_nth)
  with t x k show ?thesis
    by (simp add: take_update_swap)
qed

lemma heap_extract_min_ok:
  assumes "length (event_heap g) = 20" "0 < event_heap_size g" "event_heap_size g \<le> 20"
  shows "\<exists>h'. heap_extract_min g =
            Inr (event_heap g ! 0, g\<lparr>event_heap := h', event_heap_size := event_heap_size g - 1\<rparr>)
          \<and> length h' = 20
          \<and> mset (take (unat (event_heap_size g - 1)) h') + {#event_heap g ! 0#}
              = mset (take (unat (event_heap_size g)) (event_heap g))"
proof -
  let ?h = "event_heap g" and ?sz = "event_heap_size g"
  from assms(2,3) have b: "0 \<le> uint ?sz - 1" "uint ?sz - 1 < 20" "?sz - 1 \<le> 20"
    using word_size_bounds by blast+
  from assms(2) have "?sz \<noteq> 0" by auto
  then have u: "unat (?sz - 1) = unat ?sz - 1" by (rule unat_minus_one)
  define k where "k = unat ?sz - 1"
  from b(1) have "nat (uint ?sz - 1) = nat (uint ?sz) - 1"
    by linarith
  from \<open>nat (uint ?sz - 1) = nat (uint ?sz) - 1\<close> have n: "nat (uint ?sz - 1) = k"
    by (simp add: k_def)
  from assms have sz: "1 \<le> unat ?sz" "unat ?sz \<le> length ?h"
    by (simp_all add: word_less_nat_alt word_le_nat_alt)
  have g0: "heap_get ?h 0 = Inr (?h ! 0)"
    using assms(1) by (simp add: heap_get_def MAX_HEAP_SIZE_def)
  have g1: "heap_get ?h (uint ?sz - 1) = Inr (?h ! k)"
    using assms(1) b n by (simp add: heap_get_def MAX_HEAP_SIZE_def)
  let ?h1 = "?h[0 := ?h ! k]"
  have s0: "heap_set ?h 0 (?h ! k) = Inr ?h1"
    using assms(1) by (simp add: heap_set_def MAX_HEAP_SIZE_def)
  let ?g1 = "g\<lparr>event_heap := ?h1, event_heap_size := ?sz - 1\<rparr>"
  have "\<exists>h'. heapify 0 ?g1 = Inr (?g1\<lparr>event_heap := h'\<rparr>) \<and> length h' = 20
          \<and> mset (take (unat (event_heap_size ?g1)) h')
              = mset (take (unat (event_heap_size ?g1)) (event_heap ?g1))"
    using assms(1) b(3) by (intro heapify_ok) simp_all
  then obtain h' where h': "heapify 0 ?g1 = Inr (?g1\<lparr>event_heap := h'\<rparr>)" "length h' = 20"
    "mset (take k h') = mset (take k ?h1)"
    using u by (auto simp: k_def)
  have "heap_extract_min g = Inr (?h ! 0, g\<lparr>event_heap := h', event_heap_size := ?sz - 1\<rparr>)"
    by (simp add: heap_extract_min_def g0 g1 s0 h'(1))
  moreover have "mset (take (unat (?sz - 1)) h') + {#?h ! 0#} = mset (take (unat ?sz) ?h)"
    using h'(3) u mset_take_replace_root [OF sz] by (simp add: k_def)
  ultimately show ?thesis using h'(2) by blast
qed

lemma fold_whack_frame:
  "event_heap (fold (whack_mole b) xs g) = event_heap g
   \<and> event_heap_size (fold (whack_mole b) xs g) = event_heap_size g
   \<and> state (fold (whack_mole b) xs g) = state g
   \<and> next_mole_number (fold (whack_mole b) xs g) = next_mole_number g
   \<and> length (mole_state (fold (whack_mole b) xs g)) = length (mole_state g)"
  by (induction xs arbitrary: g) (simp_all add: whack_mole_def digitalWrite_def)

lemma scan_buttons_frame:
  "event_heap (scan_buttons b g) = event_heap g"
  "event_heap_size (scan_buttons b g) = event_heap_size g"
  "state (scan_buttons b g) = state g"
  "next_mole_number (scan_buttons b g) = next_mole_number g"
  "length (mole_state (scan_buttons b g)) = length (mole_state g)"
  using fold_whack_frame [of b "[0..<num_moles]" g] by (simp_all add: scan_buttons_def)

lemma root_get:
  "length (event_heap g) = 20 \<Longrightarrow> heap_get (event_heap (scan_buttons b g)) 0 = Inr (event_heap g ! 0)"
  by (simp add: scan_buttons_frame heap_get_def MAX_HEAP_SIZE_def)

section \<open>Starting a game\<close>

lemma heap_insert_loop_at_0: "heap_insert_loop ev parent h 0 = Some (Inr (h, 0))"
  by (subst heap_insert_loop.simps) simp

lemma heap_insert_empty:
  assumes "length (event_heap g) = 20" "event_heap_size g = 0"
  shows "heap_insert ev g =
           Some (Inr (g\<lparr>event_heap :=
                          (if event_millis ev < event_millis (event_heap g ! 0)
                           then (event_heap g)[1 := event_heap g ! 0, 0 := ev]
                           else (event_heap g)[1 := ev]),
                        event_heap_size := 1\<rparr>))"
proof -
  have p: "heap_parent 1 = 0" by (simp add: heap_parent_def)
  have "heap_insert_loop ev 0 (event_heap g) 1 =
          (if event_millis ev < event_millis (event_heap g ! 0)
           then Some (Inr ((event_heap g)[1 := event_heap g ! 0], 0))
           else Some (Inr (event_heap g, 1)))"
    using assms(1)
    by (subst heap_insert_loop.simps)
       (simp add: heap_get_def heap_set_def MAX_HEAP_SIZE_def heap_insert_loop_at_0)
  then show ?thesis
    using assms by (simp add: heap_insert_def Let_def p heap_set_def MAX_HEAP_SIZE_def)
qed

lemma heap_insert_frame:
  "heap_insert ev g = Some (Inr g') \<Longrightarrow>
   \<exists>h'. g' = g\<lparr>event_heap := h', event_heap_size := event_heap_size g + 1\<rparr>"
  by (auto simp: heap_insert_def Let_def split: option.splits sum.splits prod.splits)

text \<open>
  Once the loop of \<^verbatim>\<open>heap_insert\<close> has moved to \<open>parent\<close>, a non-root index whose element
  fires later than the new event, its state no longer changes and it never exits.
\<close>

lemma insert_loop_returns_not_stuck:
  assumes "heap_insert_loop ev parent h i = Some y"
  shows "\<not> (0 < parent \<and> i = parent
      \<and> (\<exists>p. heap_get h (uint parent) = Inr p \<and> event_millis ev < event_millis p))"
proof (rule heap_insert_loop.raw_induct
    [where P = "\<lambda>ev parent h i y. \<not> (0 < parent \<and> i = parent
      \<and> (\<exists>p. heap_get h (uint parent) = Inr p \<and> event_millis ev < event_millis p))",
     OF _ assms], goal_cases)
  case (1 f ev parent h i y)
  show ?case
  proof
    assume a: "0 < parent \<and> i = parent
      \<and> (\<exists>p. heap_get h (uint parent) = Inr p \<and> event_millis ev < event_millis p)"
    then obtain p where p: "heap_get h (uint parent) = Inr p" "event_millis ev < event_millis p"
      by blast
    then have "heap_set h (uint parent) p = Inr h"
      by (auto simp: heap_get_def heap_set_def split: if_splits)
    with 1(2) a p have "f ev parent h parent = Some y"
      by simp
    from 1(1) [OF this] a show False by blast
  qed
qed

lemma insert_loop_stuck:
  assumes "0 < parent" "heap_get h (uint parent) = Inr p" "event_millis ev < event_millis p"
  shows "heap_insert_loop ev parent h parent = None"
proof (rule ccontr)
  assume "heap_insert_loop ev parent h parent \<noteq> None"
  then obtain y where "heap_insert_loop ev parent h parent = Some y" by auto
  from insert_loop_returns_not_stuck [OF this] assms show False by blast
qed

lemma four_elements: "length xs = 4 \<Longrightarrow> \<exists>a b c d. xs = [a, b, c, d]"
  by (auto simp: length_Suc_conv numeral_eq_Suc)

lemma upt_4: "[0..<4] = [0, 1, 2, 3]"
  by (simp add: upt_rec numeral_eq_Suc)

lemma clear_all_moles:
  assumes "length (mole_state g) = num_moles"
  shows "fold clear_mole [0..<num_moles] g =
           g\<lparr>mole_state := [0, 0, 0, 0], pins_high := pins_high g - {3, 5, 10, 13}\<rparr>"
proof -
  from assms obtain a b c d where "mole_state g = [a, b, c, d]"
    using four_elements [of "mole_state g"] by (auto simp: num_moles_def moles_def)
  moreover have "pins_high g - {3} - {5} - {10} - {13} = pins_high g - {3, 5, 10, 13}"
    by auto
  ultimately show ?thesis
    by (simp add: num_moles_def moles_def upt_4 clear_mole_def digitalWrite_def)
qed

lemma startANewGame_ok:
  assumes "length (event_heap g) = 20" "length (mole_state g) = num_moles"
  shows "\<exists>h'. startANewGame b g =
            Some (Inr (g\<lparr>mole_state := [0, 0, 0, 0], state := state_running, event_heap := h',
                         event_heap_size := 1, pins_high := pins_high g - {3, 5, 10, 13}\<rparr>))
          \<and> length h' = 20 \<and> makeMoleCanPopEvent b \<in> set h'"
proof -
  let ?ev = "makeMoleCanPopEvent b"
  let ?h' = "if event_millis ?ev < event_millis (event_heap g ! 0)
             then (event_heap g)[1 := event_heap g ! 0, 0 := ?ev] else (event_heap g)[1 := ?ev]"
  have "heap_insert ?ev (heap_clear g) = Some (Inr (g\<lparr>event_heap := ?h', event_heap_size := 1\<rparr>))"
    using assms(1) heap_insert_empty [of "heap_clear g" ?ev] by (simp add: heap_clear_def)
  then have "startANewGame b g =
      Some (Inr (g\<lparr>mole_state := [0, 0, 0, 0], state := state_running, event_heap := ?h',
                   event_heap_size := 1, pins_high := pins_high g - {3, 5, 10, 13}\<rparr>))"
    using assms(2) by (simp add: startANewGame_def and_then_def clear_all_moles)
  moreover have "length ?h' = 20" using assms(1) by simp
  moreover have "?ev \<in> set ?h'" using assms(1) by (simp add: set_update_memI)
  ultimately show ?thesis by blast
qed

section \<open>The outer switch\<close>

lemma and_then_return: "and_then m (\<lambda>x. Some (Inr x)) = m"
  by (auto simp: and_then_def split: option.splits sum.splits)

lemma and_then_Some: "and_then (Some (Inr x)) k = k x"
  by (simp add: and_then_def)

lemma run_bodies_last: "run_bodies [f] = f"
proof
  fix g
  have nil: "run_bodies [] = (\<lambda>x. Some (Inr x))" by (rule ext) simp
  show "run_bodies [f] g = f g" by (simp add: nil and_then_return)
qed

lemma run_bodies_two: "run_bodies [f, f'] = (\<lambda>g. and_then (f g) f')"
  by (rule ext) (simp add: run_bodies_last)

lemma light_all_leds:
  "fold (\<lambda>i. digitalWrite (led (moles ! i)) True) [0..<num_moles] g =
     g\<lparr>pins_high := insert 13 (insert 10 (insert 5 (insert 3 (pins_high g))))\<rparr>"
  by (simp add: num_moles_def moles_def upt_4 digitalWrite_def)

lemma program_stopped_ok:
  assumes "well_sized g"
  shows "\<exists>g1. program_stopped b g = Some (Inr g1)
           \<and> (anyButtonPressed b \<longrightarrow> state g1 = state_running)"
proof (cases "anyButtonPressed b")
  case True
  let ?g = "g\<lparr>pins_high := insert 13 (insert 10 (insert 5 (insert 3 (pins_high g))))\<rparr>"
  from assms have "length (event_heap ?g) = 20" "length (mole_state ?g) = num_moles"
    by (simp_all add: well_sized_def MAX_HEAP_SIZE_def)
  from startANewGame_ok [OF this, of b] True show ?thesis
    by (auto simp: program_stopped_def light_all_leds maybeStartANewGame_def)
next
  case False
  then show ?thesis
    by (simp add: program_stopped_def maybeStartANewGame_def)
qed

section \<open>The occupancy/LED coupling\<close>

lemma coupled_iff:
  "coupled g \<longleftrightarrow>
     ((mole_state g ! 0 \<noteq> 0) = (3 \<in> pins_high g)) \<and> ((mole_state g ! 1 \<noteq> 0) = (5 \<in> pins_high g))
   \<and> ((mole_state g ! 2 \<noteq> 0) = (10 \<in> pins_high g)) \<and> ((mole_state g ! 3 \<noteq> 0) = (13 \<in> pins_high g))"
  by (simp add: coupled_def num_moles_def moles_def upt_4 eval_nat_numeral)

lemma below_4: "i < (4::nat) \<Longrightarrow> i = 0 \<or> i = 1 \<or> i = 2 \<or> i = 3"
  by arith

lemma whack_mole_coupled:
  assumes "coupled g" "length (mole_state g) = num_moles" "i < num_moles"
  shows "coupled (whack_mole b i g) \<and> length (mole_state (whack_mole b i g)) = num_moles"
proof -
  from assms(2) obtain x0 x1 x2 x3 where "mole_state g = [x0, x1, x2, x3]"
    using four_elements [of "mole_state g"] by (auto simp: num_moles_def moles_def)
  moreover from assms(3) have "i = 0 \<or> i = 1 \<or> i = 2 \<or> i = 3"
    using below_4 by (simp add: num_moles_def moles_def)
  ultimately show ?thesis
    using assms(1)
    by (elim disjE) (simp_all add: coupled_iff whack_mole_def digitalWrite_def moles_def num_moles_def)
qed

lemma fold_whack_coupled:
  "coupled g \<Longrightarrow> length (mole_state g) = num_moles \<Longrightarrow> \<forall>i \<in> set xs. i < num_moles \<Longrightarrow>
   coupled (fold (whack_mole b) xs g)"
proof (induction xs arbitrary: g)
  case Nil
  then show ?case by simp
next
  case (Cons x xs)
  from Cons.prems have "coupled (whack_mole b x g) \<and> length (mole_state (whack_mole b x g)) = num_moles"
    by (intro whack_mole_coupled) simp_all
  with Cons show ?case by simp
qed

lemma scan_buttons_coupled:
  "coupled g \<Longrightarrow> length (mole_state g) = num_moles \<Longrightarrow> coupled (scan_buttons b g)"
  unfolding scan_buttons_def by (rule fold_whack_coupled) simp_all

lemma heapify_frame: "heapify i g = Inr g' \<Longrightarrow> \<exists>h'. g' = g\<lparr>event_heap := h'\<rparr>"
proof (induction i g arbitrary: g' rule: heapify.induct)
  case (1 i g)
  let ?h = "event_heap g" and ?sz = "event_heap_size g"
  let ?e1 = "if heap_left i < ?sz
             then case millis_less ?h (uint (heap_left i)) (uint i) of
                    Inl x \<Rightarrow> Inl x | Inr c \<Rightarrow> Inr (if c then heap_left i else i)
             else Inr i"
  let ?e2 = "\<lambda>largest0. if heap_right i < ?sz
             then case millis_less ?h (uint (heap_right i)) (uint largest0) of
                    Inl x \<Rightarrow> Inl x | Inr c \<Rightarrow> Inr (if c then heap_right i else largest0)
             else Inr largest0"
  let ?rest = "\<lambda>largest. if largest \<noteq> i
             then case heap_swap ?h (uint largest) (uint i) of
                    Inl x \<Rightarrow> Inl x | Inr h' \<Rightarrow> heapify largest (g\<lparr>event_heap := h'\<rparr>)
             else Inr g"
  have unf: "heapify i g =
     (case ?e1 of Inl x \<Rightarrow> Inl x
      | Inr largest0 \<Rightarrow> (case ?e2 largest0 of Inl x \<Rightarrow> Inl x | Inr largest \<Rightarrow> ?rest largest))"
    by (subst heapify.simps) (simp only: Let_def)
  from "1.prems" unf obtain l0 where l0: "?e1 = Inr l0"
    by (cases ?e1) simp_all
  from "1.prems" unf l0 obtain lg where lg: "?e2 l0 = Inr lg"
    by (cases "?e2 l0") simp_all
  from "1.prems" unf l0 lg have r: "?rest lg = Inr g'"
    by simp
  show ?case
  proof (cases "lg = i")
    case True
    with r have "g' = g\<lparr>event_heap := event_heap g\<rparr>" by simp
    then show ?thesis by blast
  next
    case False
    with r obtain h' where sw: "heap_swap ?h (uint lg) (uint i) = Inr h'"
      by (cases "heap_swap ?h (uint lg) (uint i)") simp_all
    with r False have "heapify lg (g\<lparr>event_heap := h'\<rparr>) = Inr g'"
      by simp
    from "1.IH" [OF refl refl refl refl l0 lg False sw this]
    show ?thesis by auto
  qed
qed

lemma heap_extract_min_frame:
  "heap_extract_min g = Inr (e, g') \<Longrightarrow>
   mole_state g' = mole_state g \<and> pins_high g' = pins_high g
   \<and> next_mole_number g' = next_mole_number g \<and> state g' = state g
   \<and> event_heap_size g' = event_heap_size g - 1"
  by (auto simp: heap_extract_min_def split: sum.splits dest!: heapify_frame)

lemma startANewGame_coupled:
  assumes "startANewGame b g = Some (Inr g')" "length (mole_state g) = num_moles"
  shows "coupled g' \<and> length (mole_state g') = num_moles \<and> next_mole_number g' = next_mole_number g"
proof -
  from assms(1) obtain g1 where
    g1: "heap_insert (makeMoleCanPopEvent b) (heap_clear g) = Some (Inr g1)"
    and g': "g' = (fold clear_mole [0..<num_moles] g1)\<lparr>state := state_running\<rparr>"
    by (auto simp: startANewGame_def and_then_def split: option.splits sum.splits)
  from heap_insert_frame [OF g1] obtain h' where
    "g1 = (heap_clear g)\<lparr>event_heap := h', event_heap_size := event_heap_size (heap_clear g) + 1\<rparr>"
    by blast
  then have m: "mole_state g1 = mole_state g" "next_mole_number g1 = next_mole_number g"
    by (simp_all add: heap_clear_def)
  with assms(2) have "length (mole_state g1) = num_moles" by simp
  from clear_all_moles [OF this] g' m show ?thesis
    by (simp add: coupled_iff num_moles_def moles_def)
qed

lemma maybeStartANewGame_coupled:
  assumes "maybeStartANewGame b g = Some (Inr g')" "length (mole_state g) = num_moles" "coupled g"
  shows "coupled g' \<and> length (mole_state g') = num_moles \<and> next_mole_number g' = next_mole_number g"
  using assms startANewGame_coupled [of b g g']
  by (auto simp: maybeStartANewGame_def split: if_splits)

lemma pop_mole_coupled:
  assumes "coupled g" "length (mole_state g) = num_moles" "next_mole_number g \<noteq> 0"
    and "0 \<le> m" "m < int num_moles"
  shows "coupled (digitalWrite (led (moles ! nat m)) True
                   (g\<lparr>mole_state := (mole_state g)[nat m := next_mole_number g]\<rparr>))"
proof -
  from assms(2) obtain x0 x1 x2 x3 where "mole_state g = [x0, x1, x2, x3]"
    using four_elements [of "mole_state g"] by (auto simp: num_moles_def moles_def)
  moreover from assms(4,5) have "nat m = 0 \<or> nat m = 1 \<or> nat m = 2 \<or> nat m = 3"
    using below_4 [of "nat m"] by (simp add: num_moles_def moles_def)
  ultimately show ?thesis
    using assms(1,3)
    by (elim disjE) (simp_all add: coupled_iff digitalWrite_def moles_def)
qed

lemma handleMoleCanPop_coupled:
  assumes "handleMoleCanPop b g = Some (Inr g')"
    and "coupled g" "length (mole_state g) = num_moles" "next_mole_number g \<noteq> 0"
  shows "coupled g' \<and> length (mole_state g') = num_moles"
proof (cases "random_100 b \<ge> uint mole_pop_prob")
  case True
  with assms show ?thesis by (simp add: handleMoleCanPop_def)
next
  case False
  let ?m = "random_num_moles b"
  let ?g1 = "digitalWrite (led (moles ! nat ?m)) True
               (g\<lparr>mole_state := (mole_state g)[nat ?m := next_mole_number g]\<rparr>)"
  from assms(1) False have inb: "0 \<le> ?m" "?m < int num_moles"
    by (auto simp: handleMoleCanPop_def Let_def split: if_splits)
  with assms(1) False obtain g2 g3 where
    g2: "heap_insert (makeMoleExpiresEvent b ?g1) ?g1 = Some (Inr g2)"
    and g3: "heap_insert (makeMoleCanPopEvent b) g2 = Some (Inr g3)"
    and g': "g' = g3\<lparr>next_mole_number := next_mole_number g3 + 1\<rparr>"
    by (auto simp: handleMoleCanPop_def Let_def and_then_def split: if_splits option.splits sum.splits)
  from heap_insert_frame [OF g2] heap_insert_frame [OF g3] g'
  have "mole_state g' = mole_state ?g1" "pins_high g' = pins_high ?g1"
    by auto
  moreover have "coupled ?g1"
    using assms(2,3,4) inb by (rule pop_mole_coupled)
  moreover have "length (mole_state ?g1) = num_moles"
    using assms(3) by (simp add: digitalWrite_def)
  ultimately show ?thesis
    by (simp add: coupled_iff)
qed

lemma program_running_coupled:
  assumes "program_running b g = Some (Inr g')"
    and "coupled g" "length (mole_state g) = num_moles" "next_mole_number g \<noteq> 0"
  shows "coupled g' \<and> length (mole_state g') = num_moles"
proof -
  let ?g1 = "scan_buttons b g"
  have c1: "coupled ?g1" "length (mole_state ?g1) = num_moles" "next_mole_number ?g1 \<noteq> 0"
    using assms(2,3,4) by (simp_all add: scan_buttons_coupled scan_buttons_frame)
  from assms(1) consider "g' = ?g1"
    | ev g2 where "heap_extract_min ?g1 = Inr (ev, g2)" "dispatch_event b ev g2 = Some (Inr g')"
    by (auto simp: program_running_def Let_def split: sum.splits if_splits prod.splits)
  then show ?thesis
  proof cases
    case 1
    with c1 show ?thesis by simp
  next
    case 2
    from heap_extract_min_frame [OF 2(1)] c1 have c2: "coupled g2" "length (mole_state g2) = num_moles" "next_mole_number g2 \<noteq> 0"
      by (simp_all add: coupled_iff)
    show ?thesis
    proof (cases "etype ev")
      case event_mole_can_pop
      with 2(2) have "handleMoleCanPop b g2 = Some (Inr g')"
        by (simp add: dispatch_event_def)
      from handleMoleCanPop_coupled [OF this c2] show ?thesis .
    next
      case event_mole_expired
      with 2(2) have "g' = handleMoleExpired g2"
        by (simp add: dispatch_event_def)
      with c2 show ?thesis by (simp add: handleMoleExpired_def coupled_iff)
    qed
  qed
qed

lemma and_then_returns:
  "and_then m k = Some (Inr y) \<Longrightarrow> \<exists>x. m = Some (Inr x) \<and> k x = Some (Inr y)"
  by (auto simp: and_then_def split: option.splits sum.splits)

lemma later_handlers_coupled:
  assumes "and_then (program_won bw g) (program_lost bl) = Some (Inr g')"
    and "coupled g" "length (mole_state g) = num_moles"
  shows "coupled g'"
proof -
  from and_then_returns [OF assms(1)] obtain g1 where
    g1: "maybeStartANewGame bw g = Some (Inr g1)" "maybeStartANewGame bl g1 = Some (Inr g')"
    by (auto simp: program_won_def program_lost_def)
  from maybeStartANewGame_coupled [OF g1(1) assms(3,2)]
  have "coupled g1" "length (mole_state g1) = num_moles" by simp_all
  from maybeStartANewGame_coupled [OF g1(2) this(2,1)] show ?thesis by simp
qed

section \<open>A run from power-on\<close>

lemma and_then_fault: "and_then (Some (Inl f)) k = Some (Inl f)"
  by (simp add: and_then_def)

lemma first_call_stopped:
  "program_stopped (board_with [2] 5 90 0) initial_game = Some (Inr first_game)"
  by code_simp

lemma first_call_running:
  "program_running (board_with [2] 5 90 0) first_game = Some (Inr (first_game\<lparr>event_heap_size := 0\<rparr>))"
  by code_simp

lemma first_call_won:
  "program_won (board_with [2] 5 90 0) (first_game\<lparr>event_heap_size := 0\<rparr>) = Some (Inr first_game)"
  by code_simp

lemma first_call_lost:
  "program_lost (board_with [2] 5 90 0) first_game = Some (Inr first_game)"
  by code_simp

lemma first_call:
  "loop (\<lambda>_. board_with [2] 5 90 0) initial_game = Some (Inr first_game)"
proof -
  have "state initial_game = state_stopped" by (simp add: initial_game_def)
  then show ?thesis
    by (simp add: loop_def switch_fallthrough_def and_then_Some
          first_call_stopped first_call_running first_call_won first_call_lost)
qed

lemma second_call:
  "loop (\<lambda>_. board_with [] 6 90 0) first_game = Some (Inr (first_game\<lparr>event_heap_size := 0\<rparr>))"
  by code_simp

lemma third_call:
  "loop (\<lambda>_. board_with [] 7 90 0) (first_game\<lparr>event_heap_size := 0\<rparr>) = Some (Inl (OutOfBounds (- 1)))"
  by code_simp

section \<open>The claims\<close>

text \<open>
  C1. The claim: whenever a MolePop event is dispatched while Running, a new MolePop event
  at \<open>now + delay_time\<close> is inserted, whatever the probability roll. On the code a roll of
  80 (not below \<open>mole_pop_prob\<close>) makes \<^verbatim>\<open>handleMoleCanPop\<close> return before its insertions:
  a running game whose queue holds one due MolePop event ends the tick with an empty queue,
  and the re-arm event is nowhere in the array.
\<close>

theorem failed_roll_leaves_no_rearm:
  "on_return heap_contents
     (program_running (board_with [] 100 80 0) (running_with [pop_at 10])) = Some (Inr [])
   \<and> on_return (\<lambda>g. makeMoleCanPopEvent (board_with [] 100 80 0) \<in> set (event_heap g))
     (program_running (board_with [] 100 80 0) (running_with [pop_at 10])) = Some (Inr False)"
  by code_simp

text \<open>
  C2. The claim: after every insert from a state with the heap property and room left, the
  heap property holds over the occupied slots and the inserted event is among them. On the
  code the new index is taken after the increment of \<open>event_heap_size\<close>, one past the
  last occupied slot, and \<open>parent\<close> is not recomputed inside the loop: inserting into the
  empty queue of a freshly started board leaves the zero-initialised element of slot 0 as
  the only occupied slot; inserting an earlier event into a one-element queue leaves the
  occupied slots out of heap order; and inserting an event that fires at 15 into the heap
  of the events firing at 10 and 20 never returns.
\<close>

theorem insert_misses_occupied_slots:
  "on_return heap_contents (heap_insert (pop_at 1000) initial_game) = Some (Inr [zero_event])
   \<and> heap_ordered (running_with [pop_at 10])
   \<and> on_return heap_ordered (heap_insert (pop_at 5) (running_with [pop_at 10])) = Some (Inr False)
   \<and> heap_ordered (running_with [pop_at 10, pop_at 20])
   \<and> heap_insert (pop_at 15) (running_with [pop_at 10, pop_at 20]) = None"
proof -
  let ?g = "running_with [pop_at 10, pop_at 20]"
  let ?h' = "(event_heap ?g)[3 := pop_at 20]"
  have sz: "event_heap_size ?g + 1 = 3" "heap_parent 3 = 1"
    by code_simp+
  have g: "heap_get (event_heap ?g) (uint (1::8 word)) = Inr (pop_at 20)"
    "heap_set (event_heap ?g) (uint (3::8 word)) (pop_at 20) = Inr ?h'"
    "heap_get ?h' (uint (1::8 word)) = Inr (pop_at 20)"
    "event_millis (pop_at 15) < event_millis (pop_at 20)"
    by code_simp+
  have "heap_insert_loop (pop_at 15) 1 ?h' 1 = None"
    using g(3,4) by (intro insert_loop_stuck) simp_all
  then have "heap_insert_loop (pop_at 15) 1 (event_heap ?g) 3 = None"
    using g by (subst heap_insert_loop.simps) simp
  then have "heap_insert (pop_at 15) ?g = None"
    by (simp add: heap_insert_def Let_def sz)
  moreover have
    "on_return heap_contents (heap_insert (pop_at 1000) initial_game) = Some (Inr [zero_event])"
    "heap_ordered (running_with [pop_at 10])"
    "on_return heap_ordered (heap_insert (pop_at 5) (running_with [pop_at 10])) = Some (Inr False)"
    "heap_ordered ?g"
    by code_simp+
  ultimately show ?thesis by blast
qed

text \<open>
  C3. The claim: an insert attempted when the count equals the capacity fails with QueueFull
  and leaves the queue unchanged. On the code \<^verbatim>\<open>heap_insert\<close> has no capacity test: with
  20 events queued it increments the count to 21 and stores to \<^verbatim>\<open>event_heap[21]\<close>, outside
  the array of 20 elements.
\<close>

theorem insert_at_capacity_writes_out_of_bounds:
  "on_return event_heap_size (heap_insert (pop_at 1000) (initial_game\<lparr>event_heap_size := 20\<rparr>))
     = Some (Inl (OutOfBounds 21))"
  by code_simp

text \<open>
  C4, as stated: a Running tick drains the queue, extracting and handling every event whose
  fire time is at most the current time. \<^verbatim>\<open>program_running\<close> tests the root once, with an
  \<^verbatim>\<open>if\<close>: with two due MolePop events queued (and a failed roll) the tick ends in Running
  with the second due event still queued.
\<close>

theorem due_event_left_in_queue:
  "event_millis (pop_at 20) \<le> millis (board_with [] 100 90 0)
   \<and> on_return (\<lambda>g. (state g, heap_contents g))
        (program_running (board_with [] 100 90 0) (running_with [pop_at 10, pop_at 20]))
       = Some (Inr (state_running, [pop_at 20]))"
  by code_simp

text \<open>
  C4, amended: on each Running tick with between 1 and 20 events queued, after the button
  scan, at most one event is extracted. If the root's fire time is before the current time,
  exactly the root is extracted, the other queued events stay queued, and the tick's result
  is the dispatch of the root by kind; if the root's fire time is after the current time,
  the tick is the button scan alone and the queue is unchanged.
\<close>

theorem one_event_per_tick:
  assumes "length (event_heap g) = 20"
    and "0 < event_heap_size g" and "event_heap_size g \<le> MAX_HEAP_SIZE"
  shows "(event_millis (event_heap g ! 0) < millis b \<longrightarrow>
            (\<exists>g2. heap_extract_min (scan_buttons b g) = Inr (event_heap g ! 0, g2)
                 \<and> event_heap_size g2 = event_heap_size g - 1
                 \<and> mset (heap_contents g2) + {#event_heap g ! 0#} = mset (heap_contents g)
                 \<and> program_running b g = dispatch_event b (event_heap g ! 0) g2))
       \<and> (millis b' < event_millis (event_heap g ! 0) \<longrightarrow>
            program_running b' g = Some (Inr (scan_buttons b' g))
            \<and> heap_contents (scan_buttons b' g) = heap_contents g)"
proof (intro conjI impI)
  assume due: "event_millis (event_heap g ! 0) < millis b"
  let ?g1 = "scan_buttons b g"
  from assms have "length (event_heap ?g1) = 20" "0 < event_heap_size ?g1"
    "event_heap_size ?g1 \<le> 20"
    by (simp_all add: scan_buttons_frame MAX_HEAP_SIZE_def)
  from heap_extract_min_ok [OF this] obtain h' where
    ex: "heap_extract_min ?g1 =
           Inr (event_heap g ! 0, ?g1\<lparr>event_heap := h', event_heap_size := event_heap_size g - 1\<rparr>)"
    and perm: "mset (take (unat (event_heap_size g - 1)) h') + {#event_heap g ! 0#}
                = mset (take (unat (event_heap_size g)) (event_heap g))"
    by (auto simp: scan_buttons_frame)
  let ?g2 = "?g1\<lparr>event_heap := h', event_heap_size := event_heap_size g - 1\<rparr>"
  have "program_running b g = dispatch_event b (event_heap g ! 0) ?g2"
    using due by (simp add: program_running_def Let_def root_get [OF assms(1)] ex)
  moreover have "mset (heap_contents ?g2) + {#event_heap g ! 0#} = mset (heap_contents g)"
    using perm by (simp add: heap_contents_def)
  ultimately show "\<exists>g2. heap_extract_min ?g1 = Inr (event_heap g ! 0, g2)
                 \<and> event_heap_size g2 = event_heap_size g - 1
                 \<and> mset (heap_contents g2) + {#event_heap g ! 0#} = mset (heap_contents g)
                 \<and> program_running b g = dispatch_event b (event_heap g ! 0) g2"
    using ex by (intro exI [of _ ?g2]) simp
next
  assume "millis b' < event_millis (event_heap g ! 0)"
  then have "\<not> event_millis (event_heap g ! 0) < millis b'"
    by auto
  then show "program_running b' g = Some (Inr (scan_buttons b' g))"
    by (simp add: program_running_def Let_def root_get [OF assms(1)])
next
  show "heap_contents (scan_buttons b' g) = heap_contents g"
    by (simp add: heap_contents_def scan_buttons_frame)
qed

theorem one_event_per_tick_witness:
  "length (event_heap (running_with [pop_at 10, pop_at 20])) = 20
   \<and> 0 < event_heap_size (running_with [pop_at 10, pop_at 20])
   \<and> event_heap_size (running_with [pop_at 10, pop_at 20]) \<le> MAX_HEAP_SIZE
   \<and> event_millis (event_heap (running_with [pop_at 10, pop_at 20]) ! 0) < millis (board_with [] 100 90 0)
   \<and> millis (board_with [] 5 90 0) < event_millis (event_heap (running_with [pop_at 10, pop_at 20]) ! 0)
   \<and> (\<exists>g2. heap_extract_min (scan_buttons (board_with [] 100 90 0) (running_with [pop_at 10, pop_at 20]))
              = Inr (pop_at 10, g2)
          \<and> event_heap_size g2 = 1
          \<and> mset (heap_contents g2) + {#pop_at 10#} = {#pop_at 10, pop_at 20#}
          \<and> program_running (board_with [] 100 90 0) (running_with [pop_at 10, pop_at 20])
              = dispatch_event (board_with [] 100 90 0) (pop_at 10) g2)
   \<and> program_running (board_with [] 5 90 0) (running_with [pop_at 10, pop_at 20])
       = Some (Inr (scan_buttons (board_with [] 5 90 0) (running_with [pop_at 10, pop_at 20])))
   \<and> heap_contents (scan_buttons (board_with [] 5 90 0) (running_with [pop_at 10, pop_at 20]))
       = [pop_at 10, pop_at 20]"
proof -
  let ?g = "running_with [pop_at 10, pop_at 20]"
  have h: "length (event_heap ?g) = 20" "0 < event_heap_size ?g" "event_heap_size ?g \<le> MAX_HEAP_SIZE"
    by code_simp+
  have d: "event_millis (event_heap ?g ! 0) < millis (board_with [] 100 90 0)"
    "millis (board_with [] 5 90 0) < event_millis (event_heap ?g ! 0)"
    by code_simp+
  have v: "event_heap ?g ! 0 = pop_at 10" "event_heap_size ?g - 1 = 1"
    "heap_contents ?g = [pop_at 10, pop_at 20]"
    by code_simp+
  from one_event_per_tick [OF h, of "board_with [] 100 90 0" "board_with [] 5 90 0"] h d v
  show ?thesis by simp
qed

text \<open>
  C5. The claim: N events with pairwise distinct fire times inserted into an empty queue come
  back from N calls of extract_min in non-decreasing fire-time order. On the code, inserting
  the events firing at 5 and at 3 into the empty queue of a freshly started board and
  extracting twice returns the zero-initialised element of slot 0 and then the event firing at
  5; the event firing at 3 is never returned.
\<close>

theorem extraction_returns_stale_slot:
  "and_then (insert_all [pop_at 5, pop_at 3] initial_game) (\<lambda>g. Some (extract_times 2 g))
     = Some (Inr [zero_event, pop_at 5])"
  by code_simp

text \<open>
  C6, as stated: on every start of a new game the entry action resets the generation counter
  to 1. \<^verbatim>\<open>startANewGame\<close> does not assign \<open>next_mole_number\<close>: a game started after a
  lost one in which six moles had popped begins with the counter at 7.
\<close>

theorem new_game_counter_not_reset:
  "on_return (\<lambda>g. next_mole_number g = 1)
     (startANewGame (board_with [2] 5000 0 0)
        (initial_game\<lparr>state := state_lost, next_mole_number := 7\<rparr>)) = Some (Inr False)"
  by code_simp

text \<open>
  C6, amended: on every start of a new game (\<^verbatim>\<open>startANewGame\<close> on arrays of the declared
  sizes) the entry action returns, clears the queue and performs one insert of a MolePop
  event with fire time \<open>now + delay_time\<close> (the event is stored in the array and the count
  is 1), resets every mole slot to 0 with its LED commanded off, enters Running, and leaves
  the generation counter as it was.
\<close>

theorem new_game_entry_action:
  assumes "well_sized g"
  shows "\<exists>g'. startANewGame b g = Some (Inr g')
           \<and> event_heap_size g' = 1
           \<and> makeMoleCanPopEvent b \<in> set (event_heap g')
           \<and> mole_state g' = replicate num_moles 0
           \<and> list_all (\<lambda>m. led m \<notin> pins_high g') moles
           \<and> state g' = state_running
           \<and> next_mole_number g' = next_mole_number g"
proof -
  from assms have "length (event_heap g) = 20" "length (mole_state g) = num_moles"
    by (simp_all add: well_sized_def MAX_HEAP_SIZE_def)
  then obtain h' where
    "startANewGame b g =
       Some (Inr (g\<lparr>mole_state := [0, 0, 0, 0], state := state_running, event_heap := h',
                    event_heap_size := 1, pins_high := pins_high g - {3, 5, 10, 13}\<rparr>))"
    and "makeMoleCanPopEvent b \<in> set h'"
    using startANewGame_ok by blast
  then show ?thesis
    by (simp add: num_moles_def moles_def numeral_eq_Suc)
qed

theorem new_game_entry_action_witness:
  "well_sized (initial_game\<lparr>state := state_lost, next_mole_number := 7\<rparr>)
   \<and> (\<exists>g'. startANewGame (board_with [2] 5000 0 0)
               (initial_game\<lparr>state := state_lost, next_mole_number := 7\<rparr>) = Some (Inr g')
           \<and> event_heap_size g' = 1
           \<and> pop_at 6000 \<in> set (event_heap g')
           \<and> mole_state g' = replicate num_moles 0
           \<and> list_all (\<lambda>m. led m \<notin> pins_high g') moles
           \<and> state g' = state_running
           \<and> next_mole_number g' = 7)"
proof -
  have w: "well_sized (initial_game\<lparr>state := state_lost, next_mole_number := 7\<rparr>)"
    by code_simp
  have "next_mole_number (initial_game\<lparr>state := state_lost, next_mole_number := 7\<rparr>) = 7"
    by simp
  moreover have "makeMoleCanPopEvent (board_with [2] 5000 0 0) = pop_at 6000"
    by code_simp
  ultimately show ?thesis
    using w new_game_entry_action [OF w, of "board_with [2] 5000 0 0"] by simp
qed

text \<open>
  C7: whenever a MoleExpired event is dispatched by the Running handler, the state becomes
  Lost, whatever the mole slots hold. Here: on arrays of the declared size with between 1
  and 20 queued events, if slot 0 holds a MoleExpired event that fired before the current
  time, \<^verbatim>\<open>program_running\<close> returns with \<open>state_lost\<close>; \<open>mole_state\<close> is arbitrary.
\<close>

theorem expiry_always_loses:
  assumes "length (event_heap g) = 20"
    and "0 < event_heap_size g" and "event_heap_size g \<le> MAX_HEAP_SIZE"
    and "etype (event_heap g ! 0) = event_mole_expired"
    and "event_millis (event_heap g ! 0) < millis b"
  shows "\<exists>g'. program_running b g = Some (Inr g') \<and> state g' = state_lost"
proof -
  let ?g1 = "scan_buttons b g"
  from assms(1,2,3) have "length (event_heap ?g1) = 20" "0 < event_heap_size ?g1"
    "event_heap_size ?g1 \<le> 20"
    by (simp_all add: scan_buttons_frame MAX_HEAP_SIZE_def)
  from heap_extract_min_ok [OF this] obtain h' where
    ex: "heap_extract_min ?g1 =
           Inr (event_heap g ! 0, ?g1\<lparr>event_heap := h', event_heap_size := event_heap_size g - 1\<rparr>)"
    by (auto simp: scan_buttons_frame)
  have "program_running b g =
          Some (Inr (handleMoleExpired (?g1\<lparr>event_heap := h', event_heap_size := event_heap_size g - 1\<rparr>)))"
    using assms(4,5) by (simp add: program_running_def Let_def root_get [OF assms(1)] ex dispatch_event_def)
  then show ?thesis by (simp add: handleMoleExpired_def)
qed

theorem expiry_always_loses_witness:
  "length (event_heap (running_with [expiry_at 10 5])) = 20
   \<and> 0 < event_heap_size (running_with [expiry_at 10 5])
   \<and> event_heap_size (running_with [expiry_at 10 5]) \<le> MAX_HEAP_SIZE
   \<and> etype (event_heap (running_with [expiry_at 10 5]) ! 0) = event_mole_expired
   \<and> event_millis (event_heap (running_with [expiry_at 10 5]) ! 0) < millis (board_with [] 100 0 0)
   \<and> mole_state (running_with [expiry_at 10 5]) = [0, 0, 0, 0]
   \<and> (\<exists>g'. program_running (board_with [] 100 0 0) (running_with [expiry_at 10 5]) = Some (Inr g')
          \<and> state g' = state_lost)"
proof -
  have h: "length (event_heap (running_with [expiry_at 10 5])) = 20"
    "0 < event_heap_size (running_with [expiry_at 10 5])"
    "event_heap_size (running_with [expiry_at 10 5]) \<le> MAX_HEAP_SIZE"
    "etype (event_heap (running_with [expiry_at 10 5]) ! 0) = event_mole_expired"
    "event_millis (event_heap (running_with [expiry_at 10 5]) ! 0) < millis (board_with [] 100 0 0)"
    by code_simp+
  have m: "mole_state (running_with [expiry_at 10 5]) = [0, 0, 0, 0]"
    by code_simp
  from h m expiry_always_loses [OF h] show ?thesis
    by blast
qed

text \<open>
  C8, as stated: at every point, in every state including Stopped, a slot's token is non-zero
  exactly when its LED is commanded on. \<^verbatim>\<open>program_stopped\<close> turns every LED on: after the
  first \<^verbatim>\<open>loop()\<close> call from power-on with no button pressed the game is still Stopped,
  every token is 0 and every LED is on.
\<close>

theorem stopped_lights_empty_slots:
  "coupled initial_game
   \<and> on_return (\<lambda>g. (state g, coupled g)) (loop (\<lambda>_. board_with [] 0 0 0) initial_game)
       = Some (Inr (state_stopped, False))"
  by code_simp

text \<open>
  C8, amended: the coupling holds after every start of a new game (\<^verbatim>\<open>startANewGame\<close> on
  arrays of the declared sizes), and every \<^verbatim>\<open>loop()\<close> invocation that is entered in a state
  other than Stopped with the coupling in force and a non-zero generation counter, and that
  returns, leaves the coupling in force.
\<close>

theorem coupling_outside_stopped:
  "(well_sized g \<longrightarrow> (\<exists>g'. startANewGame b g = Some (Inr g') \<and> coupled g'))
   \<and> (coupled g \<and> length (mole_state g) = num_moles \<and> next_mole_number g \<noteq> 0
        \<and> state g \<noteq> state_stopped \<and> loop bd g = Some (Inr g'')
      \<longrightarrow> coupled g'')"
proof (intro conjI impI)
  assume w: "well_sized g"
  then have l: "length (event_heap g) = 20" "length (mole_state g) = num_moles"
    by (simp_all add: well_sized_def MAX_HEAP_SIZE_def)
  from startANewGame_ok [OF l, of b] obtain g' where g': "startANewGame b g = Some (Inr g')"
    by blast
  from startANewGame_coupled [OF g' l(2)] g'
  show "\<exists>g'. startANewGame b g = Some (Inr g') \<and> coupled g'" by blast
next
  assume a: "coupled g \<and> length (mole_state g) = num_moles \<and> next_mole_number g \<noteq> 0
        \<and> state g \<noteq> state_stopped \<and> loop bd g = Some (Inr g'')"
  then have c: "coupled g" "length (mole_state g) = num_moles" "next_mole_number g \<noteq> 0"
    and ns: "state g \<noteq> state_stopped" and r: "loop bd g = Some (Inr g'')"
    by simp_all
  show "coupled g''"
  proof (cases "state g")
    case state_stopped
    with ns show ?thesis by simp
  next
    case state_running
    with r have "and_then (program_running (bd state_running) g)
                   (\<lambda>g1. and_then (program_won (bd state_won) g1) (program_lost (bd state_lost)))
                 = Some (Inr g'')"
      by (simp add: loop_def switch_fallthrough_def run_bodies_two)
    from and_then_returns [OF this] obtain g1 where
      g1: "program_running (bd state_running) g = Some (Inr g1)"
        "and_then (program_won (bd state_won) g1) (program_lost (bd state_lost)) = Some (Inr g'')"
      by blast
    from program_running_coupled [OF g1(1) c]
    have "coupled g1" "length (mole_state g1) = num_moles" by simp_all
    from later_handlers_coupled [OF g1(2) this] show ?thesis .
  next
    case state_won
    with r have "and_then (program_won (bd state_won) g) (program_lost (bd state_lost)) = Some (Inr g'')"
      by (simp add: loop_def switch_fallthrough_def run_bodies_two)
    from later_handlers_coupled [OF this c(1,2)] show ?thesis .
  next
    case state_lost
    with r have "maybeStartANewGame (bd state_lost) g = Some (Inr g'')"
      by (simp add: loop_def switch_fallthrough_def run_bodies_last program_lost_def)
    from maybeStartANewGame_coupled [OF this c(2,1)] show ?thesis by simp
  qed
qed

theorem coupling_outside_stopped_witness:
  "well_sized (running_with [pop_at 10])
   \<and> (\<exists>g'. startANewGame (board_with [2] 100 0 2) (running_with [pop_at 10]) = Some (Inr g') \<and> coupled g')
   \<and> coupled (running_with [pop_at 10])
   \<and> length (mole_state (running_with [pop_at 10])) = num_moles
   \<and> next_mole_number (running_with [pop_at 10]) \<noteq> 0
   \<and> state (running_with [pop_at 10]) \<noteq> state_stopped
   \<and> (\<exists>g''. loop (\<lambda>_. board_with [] 100 0 2) (running_with [pop_at 10]) = Some (Inr g'')
          \<and> mole_state g'' = [0, 0, 1, 0] \<and> coupled g'')"
proof -
  let ?g = "running_with [pop_at 10]"
  have w: "well_sized ?g" by code_simp
  have h: "coupled ?g" "length (mole_state ?g) = num_moles" "next_mole_number ?g \<noteq> 0"
    "state ?g \<noteq> state_stopped"
    by code_simp+
  have "on_return mole_state (loop (\<lambda>_. board_with [] 100 0 2) ?g) = Some (Inr [0, 0, 1, 0])"
    by code_simp
  then obtain g'' where r: "loop (\<lambda>_. board_with [] 100 0 2) ?g = Some (Inr g'')"
    and m: "mole_state g'' = [0, 0, 1, 0]"
    by (auto simp: on_return_def split: option.splits sum.splits)
  from coupling_outside_stopped [of ?g "board_with [2] 100 0 2" "\<lambda>_. board_with [] 100 0 2" g'']
    w h r m
  show ?thesis by blast
qed

text \<open>
  C9. The claim: extract_min is only invoked on a non-empty queue. On the code
  \<^verbatim>\<open>program_running\<close> compares the clock with slot 0 without looking at the count. From
  power-on: a button press starts the game and the same \<^verbatim>\<open>loop()\<close> call consumes slot 0
  (roll 90, nothing re-armed) before \<^verbatim>\<open>program_lost\<close> starts the game again; the second call
  leaves a running game with an empty queue; the third call extracts from it, reading
  \<^verbatim>\<open>event_heap[-1]\<close>.
\<close>

theorem extract_from_empty_queue:
  "on_return (\<lambda>g. (state g, event_heap_size g))
     (run_loops [\<lambda>_. board_with [2] 5 90 0, \<lambda>_. board_with [] 6 90 0] initial_game)
     = Some (Inr (state_running, 0))
   \<and> on_return state
     (run_loops [\<lambda>_. board_with [2] 5 90 0, \<lambda>_. board_with [] 6 90 0, \<lambda>_. board_with [] 7 90 0]
        initial_game)
     = Some (Inl (OutOfBounds (- 1)))"
proof -
  have "state (first_game\<lparr>event_heap_size := 0\<rparr>) = state_running" by (simp add: first_game_def)
  then show ?thesis
    by (simp add: first_call second_call third_call and_then_Some and_then_fault on_return_def)
qed

text \<open>
  C10: a \<^verbatim>\<open>loop()\<close> invocation entered with \<open>state_stopped\<close> runs \<^verbatim>\<open>program_stopped\<close> and
  then, in the same invocation, \<^verbatim>\<open>program_running\<close>, \<^verbatim>\<open>program_won\<close> and \<^verbatim>\<open>program_lost\<close>
  on the state the previous handler left; when a button is pressed \<^verbatim>\<open>program_stopped\<close> has
  already entered Running, so the first Running tick runs in the call of the transition.
\<close>

theorem stopped_runs_every_handler:
  assumes "state g = state_stopped" and "well_sized g"
  shows "\<exists>g1. program_stopped (bd state_stopped) g = Some (Inr g1)
           \<and> loop bd g =
               and_then (program_running (bd state_running) g1)
                 (\<lambda>g2. and_then (program_won (bd state_won) g2) (program_lost (bd state_lost)))
           \<and> (anyButtonPressed (bd state_stopped) \<longrightarrow> state g1 = state_running)"
proof -
  from program_stopped_ok [OF assms(2), of "bd state_stopped"] obtain g1 where
    g1: "program_stopped (bd state_stopped) g = Some (Inr g1)"
      "anyButtonPressed (bd state_stopped) \<longrightarrow> state g1 = state_running"
    by blast
  have "loop bd g =
          and_then (program_running (bd state_running) g1)
            (\<lambda>g2. and_then (program_won (bd state_won) g2) (program_lost (bd state_lost)))"
    using assms(1) g1(1)
    by (simp add: loop_def switch_fallthrough_def and_then_Some run_bodies_two)
  with g1 show ?thesis by blast
qed

theorem stopped_runs_every_handler_witness:
  "state initial_game = state_stopped \<and> well_sized initial_game
   \<and> anyButtonPressed (board_with [2] 5 90 0)
   \<and> (\<exists>g1. program_stopped (board_with [2] 5 90 0) initial_game = Some (Inr g1)
           \<and> loop (\<lambda>_. board_with [2] 5 90 0) initial_game =
               and_then (program_running (board_with [2] 5 90 0) g1)
                 (\<lambda>g2. and_then (program_won (board_with [2] 5 90 0) g2)
                         (program_lost (board_with [2] 5 90 0)))
           \<and> state g1 = state_running)"
proof -
  have h: "state initial_game = state_stopped" "well_sized initial_game"
    by code_simp+
  have p: "anyButtonPressed (board_with [2] 5 90 0)"
    by code_simp
  from h p stopped_runs_every_handler [OF h, of "\<lambda>_. board_with [2] 5 90 0"] show ?thesis
    by auto
qed

end
